theory Spec2Isabelle
  imports Main "HOL-Library.AList" "HOL-Library.Char_ord" "HOL-Library.List_Lexorder"
    "HOL-Library.Multiset"
begin

section \<open>Response dispatch synthesis of pkg/codegen/template_helpers.go\<close>

text \<open>
  Go strings are byte sequences; they are modelled as \<open>string\<close> (lists of 8-bit
  characters). \<open>sort.Strings\<close> compares bytewise, which is the lexicographic order of
  \<open>HOL-Library.List_Lexorder\<close> over the character order of \<open>HOL-Library.Char_ord\<close>.
\<close>

subsection \<open>Constants\<close>

definition newline :: string where
  "newline = [CHR 0x0A]"

definition prefixMostSpecific :: string where
  "prefixMostSpecific = ''3''"

definition prefixLessSpecific :: string where
  "prefixLessSpecific = ''6''"

definition prefixLeastSpecific :: string where
  "prefixLeastSpecific = ''9''"

definition responseTypeSuffix :: string where
  "responseTypeSuffix = ''Response''"

text \<open>
  The constants of the imported package \<open>github.com/labstack/echo/v4\<close> that the file
  reads: \<open>echo.MIMEApplicationJSON\<close>, \<open>echo.MIMEApplicationXML\<close>, \<open>echo.MIMETextXML\<close>
  and \<open>echo.HeaderContentType\<close>.
\<close>

definition MIMEApplicationJSON :: string where
  "MIMEApplicationJSON = ''application/json''"

definition MIMEApplicationXML :: string where
  "MIMEApplicationXML = ''application/xml''"

definition MIMETextXML :: string where
  "MIMETextXML = ''text/xml''"

definition HeaderContentType :: string where
  "HeaderContentType = ''Content-Type''"

definition contentTypesJSON :: "string list" where
  "contentTypesJSON = [MIMEApplicationJSON, ''text/x-json'']"

definition contentTypesYAML :: "string list" where
  "contentTypesYAML = [''application/yaml'', ''application/x-yaml'', ''text/yaml'', ''text/x-yaml'']"

definition contentTypesXML :: "string list" where
  "contentTypesXML = [MIMEApplicationXML, MIMETextXML]"

subsection \<open>Data model\<close>

text \<open>
  \<open>ResponseTypeDefinition\<close>: the fields the file reads. \<open>SchemaTypeDecl\<close> is the
  value of \<open>typeDefinition.Schema.TypeDecl()\<close>.
\<close>

record ResponseTypeDefinition =
  ResponseName :: string
  ContentTypeName :: string
  TypeName :: string
  SchemaTypeDecl :: string

text \<open>
  \<open>openapi3.Response\<close>: \<open>Content\<close> is a Go map from content-type names to media
  types, of which the file reads the number of entries and the keys only. It is
  modelled by an enumeration of its keys, in whatever order the map holds them.
  \<open>openapi3.ResponseRef\<close>: \<open>Value\<close> is a pointer, \<open>None\<close> when nil. The response map
  of an operation holds a reference for each of its keys.
\<close>

record Response =
  Content :: "string list"

record ResponseRef =
  Value :: "Response option"

record Operation =
  Responses :: "string \<rightharpoonup> ResponseRef"

record OperationDefinition =
  OperationId :: string
  Spec :: Operation

type_synonym error = string

text \<open>
  A Go \<open>map[string]string\<close> is an association list with one entry per key:
  assignment replaces the entry of a key that is present, indexing a missing key gives
  the empty string.
\<close>

type_synonym stringMap = "(string \<times> string) list"

definition mapAssign :: "string \<Rightarrow> string \<Rightarrow> stringMap \<Rightarrow> stringMap" where
  "mapAssign k v m = AList.update k v m"

definition mapIndex :: "stringMap \<Rightarrow> string \<Rightarrow> string" where
  "mapIndex m k = (case map_of m k of None \<Rightarrow> [] | Some v \<Rightarrow> v)"

subsection \<open>Helpers of the package that live in other files\<close>

text \<open>
  Modelled from the spec: \<open>StringInArray\<close> (utils.go), the closed membership test of
  a content-type string in a family table.
\<close>

fun StringInArray :: "string \<Rightarrow> string list \<Rightarrow> bool" where
  "StringInArray str [] = False"
| "StringInArray str (elt # array) = (if elt = str then True else StringInArray str array)"

text \<open>
  Modelled from the spec: \<open>SortedContentKeys\<close> (utils.go), the content types of a
  response in lexicographic order of the content-type string.
\<close>

definition SortedContentKeys :: "string list \<Rightarrow> string list" where
  "SortedContentKeys dict = sort (remdups dict)"

text \<open>
  Modelled from the spec: \<open>SortedStringKeys\<close> (utils.go), the keys of a string map in
  ascending lexicographic order.
\<close>

definition SortedStringKeys :: "stringMap \<Rightarrow> string list" where
  "SortedStringKeys dict = sort (map fst dict)"

subsection \<open>getConditionOfResponseName\<close>

definition getConditionOfResponseName :: "string \<Rightarrow> string \<Rightarrow> string" where
  "getConditionOfResponseName statusCodeVar responseName =
     (if responseName = ''default'' then ''true''
      else if responseName \<in> set [''1XX'', ''2XX'', ''3XX'', ''4XX'', ''5XX'']
        then statusCodeVar @ '' / 100 == '' @ take 1 responseName
      else statusCodeVar @ '' == '' @ responseName)"

subsection \<open>buildUnmarshalCase\<close>

definition buildUnmarshalCase ::
  "ResponseTypeDefinition \<Rightarrow> string \<Rightarrow> string \<Rightarrow> string \<times> string" where
  \<open>buildUnmarshalCase typeDefinition caseAction contentType =
     (let caseKey = prefixLeastSpecific @ ''.'' @ contentType @ ''.'' @ ResponseName typeDefinition;
          caseClauseKey = getConditionOfResponseName ''rsp.StatusCode'' (ResponseName typeDefinition);
          caseClause = ''case strings.Contains(rsp.Header.Get("'' @ HeaderContentType @ ''"), "''
            @ contentType @ ''") && '' @ caseClauseKey @ '':'' @ newline @ caseAction @ newline
      in (caseKey, caseClause))\<close>

subsection \<open>genResponseUnmarshal\<close>

text \<open>
  The state of the loop: the two clause maps and what has been printed to
  \<open>os.Stderr\<close>, one element per \<open>Fprintf\<close>.
\<close>

record genState =
  handledCaseClauses :: stringMap
  unhandledCaseClauses :: stringMap
  stderr :: "string list"

definition initialState :: genState where
  "initialState = \<lparr>handledCaseClauses = [], unhandledCaseClauses = [], stderr = []\<rparr>"

text \<open>
  The case action of the JSON, YAML and XML branches: the three \<open>Sprintf\<close> calls differ
  in the decoder package only, which is the parameter \<open>decoder\<close>.
\<close>

definition unmarshalAction :: "string \<Rightarrow> ResponseTypeDefinition \<Rightarrow> string" where
  \<open>unmarshalAction decoder typeDefinition =
     ''var dest '' @ SchemaTypeDecl typeDefinition @ newline
     @ ''if err := '' @ decoder @ ''.Unmarshal(bodyBytes, &dest); err != nil { '' @ newline
     @ '' return nil, err '' @ newline
     @ ''}'' @ newline
     @ ''response.'' @ TypeName typeDefinition @ '' = &dest''\<close>

text \<open>The clause key and clause text of the two unhandled situations.\<close>

definition unhandledClauseKey :: "ResponseTypeDefinition \<Rightarrow> string" where
  "unhandledClauseKey typeDefinition =
     ''case '' @ getConditionOfResponseName ''rsp.StatusCode'' (ResponseName typeDefinition) @ '':''"

definition assignUnhandled :: "ResponseTypeDefinition \<Rightarrow> string \<Rightarrow> genState \<Rightarrow> genState" where
  "assignUnhandled typeDefinition caseAction st =
     (let caseClauseKey = unhandledClauseKey typeDefinition
      in st\<lparr>unhandledCaseClauses :=
           mapAssign (prefixLeastSpecific @ caseClauseKey)
             (caseClauseKey @ newline @ caseAction @ newline) (unhandledCaseClauses st)\<rparr>)"

definition assignHandled :: "ResponseTypeDefinition \<Rightarrow> string \<Rightarrow> genState \<Rightarrow> genState" where
  "assignHandled typeDefinition decoder st =
     (let (caseKey, caseClause) =
            buildUnmarshalCase typeDefinition (unmarshalAction decoder typeDefinition) decoder
      in st\<lparr>handledCaseClauses := mapAssign caseKey caseClause (handledCaseClauses st)\<rparr>)"

text \<open>The body of the inner loop, for one content-type name of the response.\<close>

definition contentTypeStep :: "ResponseTypeDefinition \<Rightarrow> string \<Rightarrow> genState \<Rightarrow> genState" where
  "contentTypeStep typeDefinition contentTypeName st =
     (if TypeName typeDefinition = ''interface{}'' then st
      else if StringInArray contentTypeName contentTypesJSON then
        (if ContentTypeName typeDefinition = contentTypeName
         then assignHandled typeDefinition ''json'' st else st)
      else if StringInArray contentTypeName contentTypesYAML then
        (if ContentTypeName typeDefinition = contentTypeName
         then assignHandled typeDefinition ''yaml'' st else st)
      else if StringInArray contentTypeName contentTypesXML then
        (if ContentTypeName typeDefinition = contentTypeName
         then assignHandled typeDefinition ''xml'' st else st)
      else assignUnhandled typeDefinition
             (''// Content-type ('' @ contentTypeName @ '') unsupported'') st)"

text \<open>The body of the outer loop, for one response type definition.\<close>

definition typeDefinitionStep ::
  "OperationDefinition \<Rightarrow> ResponseTypeDefinition \<Rightarrow> genState \<Rightarrow> genState" where
  "typeDefinitionStep op typeDefinition st =
     (case Responses (Spec op) (ResponseName typeDefinition) of
        None \<Rightarrow> st
      | Some responseRef \<Rightarrow>
          (case Value responseRef of
             None \<Rightarrow>
               st\<lparr>stderr := stderr st @
                 [''Response '' @ OperationId op @ ''.'' @ ResponseName typeDefinition
                    @ '' has nil value'' @ newline]\<rparr>
           | Some response \<Rightarrow>
               if length (Content response) = 0
               then assignUnhandled typeDefinition ''break // No content-type'' st
               else fold (contentTypeStep typeDefinition)
                      (SortedContentKeys (Content response)) st))"

definition runLoop :: "OperationDefinition \<Rightarrow> ResponseTypeDefinition list \<Rightarrow> genState" where
  "runLoop op typeDefinitions = fold (typeDefinitionStep op) typeDefinitions initialState"

text \<open>
  The case clauses in the order in which the two final loops print them: the handled
  clauses by sorted key, then the unhandled clauses by sorted key.
\<close>

definition caseClauses :: "genState \<Rightarrow> string list" where
  "caseClauses st =
     map (mapIndex (handledCaseClauses st)) (SortedStringKeys (handledCaseClauses st))
     @ map (mapIndex (unhandledCaseClauses st)) (SortedStringKeys (unhandledCaseClauses st))"

record genResult =
  returned :: string
  printed :: "string list"

text \<open>
  \<open>genResponseUnmarshal\<close>. The method \<open>op.GetResponseTypeDefinitions\<close> is defined in
  another file and is the parameter \<open>GetResponseTypeDefinitions\<close>; its error makes the
  function panic, which is the result \<open>Inl\<close>.
\<close>

definition genResponseUnmarshal ::
  "(OperationDefinition \<Rightarrow> error + ResponseTypeDefinition list)
     \<Rightarrow> OperationDefinition \<Rightarrow> error + genResult" where
  "genResponseUnmarshal GetResponseTypeDefinitions op =
     (case GetResponseTypeDefinitions op of
        Inl err \<Rightarrow> Inl err
      | Inr typeDefinitions \<Rightarrow>
          if length typeDefinitions = 0 then Inr \<lparr>returned = [], printed = []\<rparr>
          else
            let st = runLoop op typeDefinitions
            in if length (handledCaseClauses st) + length (unhandledCaseClauses st) = 0
               then Inr \<lparr>returned = [], printed = stderr st\<rparr>
               else Inr \<lparr>returned = ''switch {'' @ newline
                            @ concat (map (\<lambda>caseClause. caseClause @ newline) (caseClauses st))
                            @ ''}'' @ newline,
                         printed = stderr st\<rparr>)"

subsection \<open>What one iteration of the outer loop contributes\<close>

text \<open>
  The functions of this subsection are not in the source: they name what one response
  type definition contributes to the two clause maps, and are proved below to agree
  with \<open>typeDefinitionStep\<close>. \<open>decoderOf\<close> is the choice of the \<open>switch\<close> over the
  content-type tables, \<open>responseContent\<close> the content types of the response that a
  type definition names (when the response is present with a value),
  \<open>handledDecoder\<close> the decoder of the handled clause that the iteration assigns, and
  \<open>unhandledAction\<close> the action of the unhandled clause that it leaves assigned.
\<close>

definition decoderOf :: "string \<Rightarrow> string option" where
  "decoderOf contentTypeName =
     (if StringInArray contentTypeName contentTypesJSON then Some ''json''
      else if StringInArray contentTypeName contentTypesYAML then Some ''yaml''
      else if StringInArray contentTypeName contentTypesXML then Some ''xml''
      else None)"

definition responseContent :: "OperationDefinition \<Rightarrow> ResponseTypeDefinition \<Rightarrow> string list option" where
  "responseContent op typeDefinition =
     (case Responses (Spec op) (ResponseName typeDefinition) of
        None \<Rightarrow> None
      | Some responseRef \<Rightarrow> map_option Content (Value responseRef))"

definition handledDecoder :: "OperationDefinition \<Rightarrow> ResponseTypeDefinition \<Rightarrow> string option" where
  "handledDecoder op typeDefinition =
     (case responseContent op typeDefinition of
        None \<Rightarrow> None
      | Some content \<Rightarrow>
          if TypeName typeDefinition = ''interface{}'' then None
          else if ContentTypeName typeDefinition \<in> set content
            then decoderOf (ContentTypeName typeDefinition)
          else None)"

definition unhandledAction :: "OperationDefinition \<Rightarrow> ResponseTypeDefinition \<Rightarrow> string option" where
  "unhandledAction op typeDefinition =
     (case responseContent op typeDefinition of
        None \<Rightarrow> None
      | Some content \<Rightarrow>
          if content = [] then Some ''break // No content-type''
          else if TypeName typeDefinition = ''interface{}'' then None
          else (case filter (\<lambda>c. decoderOf c = None) (SortedContentKeys content) of
                  [] \<Rightarrow> None
                | c # cs \<Rightarrow> Some (''// Content-type ('' @ last (c # cs) @ '') unsupported'')))"

definition handledEntry :: "OperationDefinition \<Rightarrow> ResponseTypeDefinition \<Rightarrow> (string \<times> string) option" where
  "handledEntry op typeDefinition =
     map_option (\<lambda>decoder. buildUnmarshalCase typeDefinition (unmarshalAction decoder typeDefinition) decoder)
       (handledDecoder op typeDefinition)"

definition unhandledEntry :: "OperationDefinition \<Rightarrow> ResponseTypeDefinition \<Rightarrow> (string \<times> string) option" where
  "unhandledEntry op typeDefinition =
     map_option (\<lambda>caseAction. (prefixLeastSpecific @ unhandledClauseKey typeDefinition,
                    unhandledClauseKey typeDefinition @ newline @ caseAction @ newline))
       (unhandledAction op typeDefinition)"

definition assignEntry :: "(string \<times> string) option \<Rightarrow> stringMap \<Rightarrow> stringMap" where
  "assignEntry e m = (case e of None \<Rightarrow> m | Some (k, v) \<Rightarrow> mapAssign k v m)"

text \<open>The sort key that \<open>buildUnmarshalCase\<close> gives a handled clause.\<close>

definition handledKey :: "string \<Rightarrow> string \<Rightarrow> string" where
  "handledKey decoder responseName = prefixLeastSpecific @ ''.'' @ decoder @ ''.'' @ responseName"

subsection \<open>Go maps that hold the same entries\<close>

text \<open>
  The order in which a Go map enumerates its entries is not fixed. Two operation
  definitions hold the same maps when they agree on the identifier, on the response
  keys, on which response references are nil, and on the set of content types of each
  response, whatever the order in which each \<open>Content\<close> enumerates its keys; two
  clause maps hold the same entries when they are the same partial function.
\<close>

definition sameMaps :: "OperationDefinition \<Rightarrow> OperationDefinition \<Rightarrow> bool" where
  "sameMaps op op' \<longleftrightarrow>
     OperationId op = OperationId op'
     \<and> (\<forall>name. rel_option
           (\<lambda>responseRef responseRef'. rel_option
              (\<lambda>response response'. set (Content response) = set (Content response'))
              (Value responseRef) (Value responseRef'))
           (Responses (Spec op) name) (Responses (Spec op') name))"

definition sameEntries :: "stringMap \<Rightarrow> stringMap \<Rightarrow> bool" where
  "sameEntries m m' \<longleftrightarrow>
     distinct (map fst m) \<and> distinct (map fst m') \<and> map_of m = map_of m'"

subsection \<open>Example inputs\<close>

text \<open>Constructors for the concrete operations and records at which the theorems are instantiated.\<close>

definition responseOf :: "string list \<Rightarrow> ResponseRef" where
  "responseOf contentTypes = \<lparr>Value = Some \<lparr>Content = contentTypes\<rparr>\<rparr>"

definition typeDefinitionOf :: "string \<Rightarrow> string \<Rightarrow> string \<Rightarrow> ResponseTypeDefinition" where
  "typeDefinitionOf name contentType typeName =
     \<lparr>ResponseName = name, ContentTypeName = contentType, TypeName = typeName,
      SchemaTypeDecl = typeName\<rparr>"

definition operationOf :: "(string \<times> ResponseRef) list \<Rightarrow> OperationDefinition" where
  "operationOf responses = \<lparr>OperationId = ''getPet'', Spec = \<lparr>Responses = map_of responses\<rparr>\<rparr>"

section \<open>Properties\<close>

subsection \<open>One iteration of the loops\<close>

lemma StringInArray_iff: "StringInArray str array \<longleftrightarrow> str \<in> set array"
  by (induction array) auto

lemma contentTypeStep_decoderOf:
  "contentTypeStep td c st =
     (if TypeName td = ''interface{}'' then st
      else case decoderOf c of
        Some f \<Rightarrow> if ContentTypeName td = c then assignHandled td f st else st
      | None \<Rightarrow> assignUnhandled td (''// Content-type ('' @ c @ '') unsupported'') st)"
  by (simp add: contentTypeStep_def decoderOf_def)

lemma handled_assignUnhandled [simp]:
  "handledCaseClauses (assignUnhandled td a st) = handledCaseClauses st"
  by (simp add: assignUnhandled_def Let_def)

lemma unhandled_assignHandled [simp]:
  "unhandledCaseClauses (assignHandled td f st) = unhandledCaseClauses st"
  by (simp add: assignHandled_def Let_def split: prod.splits)

lemma stderr_assignUnhandled [simp]: "stderr (assignUnhandled td a st) = stderr st"
  by (simp add: assignUnhandled_def Let_def)

lemma stderr_assignHandled [simp]: "stderr (assignHandled td f st) = stderr st"
  by (simp add: assignHandled_def Let_def split: prod.splits)

lemma handled_assignHandled:
  "handledCaseClauses (assignHandled td f st) =
     assignEntry (Some (buildUnmarshalCase td (unmarshalAction f td) f)) (handledCaseClauses st)"
  by (simp add: assignHandled_def assignEntry_def Let_def split: prod.splits)

lemma unhandled_assignUnhandled:
  "unhandledCaseClauses (assignUnhandled td a st) =
     mapAssign (prefixLeastSpecific @ unhandledClauseKey td)
       (unhandledClauseKey td @ newline @ a @ newline) (unhandledCaseClauses st)"
  by (simp add: assignUnhandled_def Let_def)

lemma fold_contentTypeStep_sentinel:
  "TypeName td = ''interface{}'' \<Longrightarrow> fold (contentTypeStep td) cs st = st"
  by (induction cs arbitrary: st) (simp_all add: contentTypeStep_def)

lemma stderr_fold_contentTypeStep: "stderr (fold (contentTypeStep td) cs st) = stderr st"
  by (induction cs arbitrary: st) (simp_all add: contentTypeStep_def)

lemma handled_fold_contentTypeStep:
  "distinct cs \<Longrightarrow> TypeName td \<noteq> ''interface{}'' \<Longrightarrow>
   handledCaseClauses (fold (contentTypeStep td) cs st) =
     (if ContentTypeName td \<in> set cs
      then assignEntry (map_option (\<lambda>f. buildUnmarshalCase td (unmarshalAction f td) f)
             (decoderOf (ContentTypeName td))) (handledCaseClauses st)
      else handledCaseClauses st)"
proof (induction cs arbitrary: st)
  case Nil
  show ?case by simp
next
  case (Cons c cs)
  show ?case
  proof (cases "ContentTypeName td = c")
    case True
    with Cons.prems have notin: "ContentTypeName td \<notin> set cs" by auto
    have "handledCaseClauses (contentTypeStep td c st) =
        assignEntry (map_option (\<lambda>f. buildUnmarshalCase td (unmarshalAction f td) f)
             (decoderOf (ContentTypeName td))) (handledCaseClauses st)"
      using Cons.prems True
      by (auto simp: contentTypeStep_decoderOf handled_assignHandled assignEntry_def
          split: option.splits)
    with Cons notin True show ?thesis by simp
  next
    case False
    then have "handledCaseClauses (contentTypeStep td c st) = handledCaseClauses st"
      by (auto simp: contentTypeStep_decoderOf split: option.splits)
    with Cons False show ?thesis by auto
  qed
qed

lemma mapAssign_last: "mapAssign k v (mapAssign k v' m) = mapAssign k v m"
  by (simp add: mapAssign_def)

lemma unhandled_fold_contentTypeStep:
  "TypeName td \<noteq> ''interface{}'' \<Longrightarrow>
   unhandledCaseClauses (fold (contentTypeStep td) cs st) =
     (case filter (\<lambda>c. decoderOf c = None) cs of
        [] \<Rightarrow> unhandledCaseClauses st
      | c # cs' \<Rightarrow> mapAssign (prefixLeastSpecific @ unhandledClauseKey td)
          (unhandledClauseKey td @ newline
             @ (''// Content-type ('' @ last (c # cs') @ '') unsupported'') @ newline)
          (unhandledCaseClauses st))"
proof (induction cs arbitrary: st)
  case Nil
  show ?case by simp
next
  case (Cons c cs)
  show ?case
  proof (cases "decoderOf c")
    case None
    then have step: "unhandledCaseClauses (contentTypeStep td c st) =
       mapAssign (prefixLeastSpecific @ unhandledClauseKey td)
          (unhandledClauseKey td @ newline
             @ (''// Content-type ('' @ c @ '') unsupported'') @ newline)
          (unhandledCaseClauses st)"
      using Cons.prems by (simp add: contentTypeStep_decoderOf unhandled_assignUnhandled)
    show ?thesis
      using Cons None step by (simp add: mapAssign_last split: list.splits)
  next
    case (Some f)
    then have "unhandledCaseClauses (contentTypeStep td c st) = unhandledCaseClauses st"
      using Cons.prems by (simp add: contentTypeStep_decoderOf)
    with Cons Some show ?thesis by (simp split: list.splits)
  qed
qed

lemma SortedContentKeys_props [simp]:
  "distinct (SortedContentKeys c)" "set (SortedContentKeys c) = set c"
  by (simp_all add: SortedContentKeys_def)

lemma handled_typeDefinitionStep:
  "handledCaseClauses (typeDefinitionStep op td st) =
     assignEntry (handledEntry op td) (handledCaseClauses st)"
  by (cases "TypeName td = ''interface{}''")
    (auto simp: typeDefinitionStep_def handledEntry_def handledDecoder_def responseContent_def
      assignEntry_def handled_fold_contentTypeStep fold_contentTypeStep_sentinel
      split: option.splits)

lemma unhandled_typeDefinitionStep:
  "unhandledCaseClauses (typeDefinitionStep op td st) =
     assignEntry (unhandledEntry op td) (unhandledCaseClauses st)"
  by (cases "TypeName td = ''interface{}''")
    (auto simp: typeDefinitionStep_def unhandledEntry_def unhandledAction_def responseContent_def
      assignEntry_def unhandled_fold_contentTypeStep fold_contentTypeStep_sentinel
      unhandled_assignUnhandled
      split: option.splits list.splits)

lemma handled_fold_typeDefinitionStep:
  "handledCaseClauses (fold (typeDefinitionStep op) tds st) =
     fold (\<lambda>td. assignEntry (handledEntry op td)) tds (handledCaseClauses st)"
  by (induction tds arbitrary: st) (simp_all add: handled_typeDefinitionStep)

lemma unhandled_fold_typeDefinitionStep:
  "unhandledCaseClauses (fold (typeDefinitionStep op) tds st) =
     fold (\<lambda>td. assignEntry (unhandledEntry op td)) tds (unhandledCaseClauses st)"
  by (induction tds arbitrary: st) (simp_all add: unhandled_typeDefinitionStep)

lemma handled_runLoop:
  "handledCaseClauses (runLoop op tds) = fold (\<lambda>td. assignEntry (handledEntry op td)) tds []"
  by (simp add: runLoop_def handled_fold_typeDefinitionStep initialState_def)

lemma unhandled_runLoop:
  "unhandledCaseClauses (runLoop op tds) = fold (\<lambda>td. assignEntry (unhandledEntry op td)) tds []"
  by (simp add: runLoop_def unhandled_fold_typeDefinitionStep initialState_def)

lemma keys_assignEntry:
  "fst ` set (assignEntry e m) = fst ` set m \<union> (case e of None \<Rightarrow> {} | Some (k, v) \<Rightarrow> {k})"
  by (auto simp: assignEntry_def mapAssign_def dom_update split: option.splits)

lemma keys_fold_assignEntry:
  "fst ` set (fold (\<lambda>x. assignEntry (e x)) xs m) =
     fst ` set m \<union> {k. \<exists>x \<in> set xs. \<exists>v. e x = Some (k, v)}"
proof (induction xs arbitrary: m)
  case Nil
  show ?case by simp
next
  case (Cons x xs)
  show ?case
    by (cases "e x") (auto simp: Cons keys_assignEntry)
qed

lemma distinct_assignEntry:
  "distinct (map fst m) \<Longrightarrow> distinct (map fst (assignEntry e m))"
  by (auto simp: assignEntry_def mapAssign_def distinct_update split: option.splits)

lemma distinct_fold_assignEntry:
  "distinct (map fst m) \<Longrightarrow> distinct (map fst (fold (\<lambda>x. assignEntry (e x)) xs m))"
  by (induction xs arbitrary: m) (simp_all add: distinct_assignEntry)

lemma map_of_assignEntry:
  "map_of (assignEntry e m) k =
     (case e of None \<Rightarrow> map_of m k | Some (k', v) \<Rightarrow> if k = k' then Some v else map_of m k)"
  by (auto simp: assignEntry_def mapAssign_def update_conv' split: option.splits)

lemma map_of_fold_assignEntry_other:
  "\<forall>x \<in> set xs. \<forall>v. e x \<noteq> Some (k, v) \<Longrightarrow>
   map_of (fold (\<lambda>x. assignEntry (e x)) xs m) k = map_of m k"
proof (induction xs arbitrary: m)
  case Nil
  show ?case by simp
next
  case (Cons x xs)
  then show ?case
    by (cases "e x") (auto simp: map_of_assignEntry)
qed

lemma map_of_fold_assignEntry_last:
  assumes "e x = Some (k, v)" and "\<forall>y \<in> set ys. \<forall>v'. e y \<noteq> Some (k, v')"
  shows "map_of (fold (\<lambda>x. assignEntry (e x)) (xs @ x # ys) m) k = Some v"
  using assms by (simp add: map_of_fold_assignEntry_other map_of_assignEntry)

lemma map_of_fold_assignEntry_origin:
  "map_of (fold (\<lambda>x. assignEntry (e x)) xs m) k = Some v \<Longrightarrow>
   map_of m k = Some v \<or> (\<exists>x \<in> set xs. e x = Some (k, v))"
proof (induction xs arbitrary: m)
  case Nil
  then show ?case by simp
next
  case (Cons x xs)
  from Cons.prems have "map_of (fold (\<lambda>x. assignEntry (e x)) xs (assignEntry (e x) m)) k = Some v"
    by simp
  from Cons.IH [OF this] show ?case
    by (cases "e x") (auto simp: map_of_assignEntry split: if_splits)
qed

subsection \<open>The status-code condition of a response name\<close>

text \<open>
  C3. For every variable name and response key, \<open>getConditionOfResponseName\<close> returns
  the literal \<open>true\<close> for the key \<open>default\<close>, the text \<open><var> / 100 == <d>\<close> with the
  leading digit \<open>d\<close> of the key for the keys \<open>1XX\<close> to \<open>5XX\<close>, and the text
  \<open><var> == <key>\<close> for every other key.
\<close>

theorem getConditionOfResponseName_cases:
  "(responseName = ''default'' \<longrightarrow>
      getConditionOfResponseName statusCodeVar responseName = ''true'')
   \<and> (d \<in> set ''12345'' \<longrightarrow>
      getConditionOfResponseName statusCodeVar [d, CHR ''X'', CHR ''X'']
        = statusCodeVar @ '' / 100 == '' @ [d])
   \<and> (responseName \<noteq> ''default''
        \<and> (\<forall>d' \<in> set ''12345''. responseName \<noteq> [d', CHR ''X'', CHR ''X'']) \<longrightarrow>
      getConditionOfResponseName statusCodeVar responseName
        = statusCodeVar @ '' == '' @ responseName)"
  by (auto simp: getConditionOfResponseName_def)

theorem getConditionOfResponseName_cases_witness:
  "getConditionOfResponseName ''rsp.StatusCode'' ''default'' = ''true''
   \<and> getConditionOfResponseName ''rsp.StatusCode'' ''2XX'' = ''rsp.StatusCode / 100 == 2''
   \<and> getConditionOfResponseName ''rsp.StatusCode'' ''404'' = ''rsp.StatusCode == 404''"
  using getConditionOfResponseName_cases [of "''default''" "''rsp.StatusCode''" "CHR ''2''"]
    getConditionOfResponseName_cases [of "''404''" "''rsp.StatusCode''" "CHR ''2''"]
  by simp

lemma sort_Nil_iff: "sort xs = [] \<longleftrightarrow> xs = []"
  using length_sort [of "\<lambda>x. x" xs] by (cases xs) auto

lemma caseClauses_Nil_iff:
  "caseClauses st = [] \<longleftrightarrow> handledCaseClauses st = [] \<and> unhandledCaseClauses st = []"
  by (simp add: caseClauses_def SortedStringKeys_def sort_Nil_iff)

subsection \<open>The empty fragment\<close>

text \<open>
  C5. \<open>genResponseUnmarshal\<close> returns the empty string, and no empty \<open>switch\<close>, in
  exactly two situations, neither of which is an error: the list of response type
  definitions is empty, or the loop leaves both clause maps empty. Otherwise it returns
  the \<open>switch\<close> around at least one clause. The failure of
  \<open>GetResponseTypeDefinitions\<close> is the panic, never the empty string.
\<close>

theorem genResponseUnmarshal_empty_iff:
  "(GetResponseTypeDefinitions op = Inl err \<longrightarrow>
      genResponseUnmarshal GetResponseTypeDefinitions op = Inl err)
   \<and> (GetResponseTypeDefinitions op = Inr typeDefinitions \<longrightarrow>
      (\<exists>r. genResponseUnmarshal GetResponseTypeDefinitions op = Inr r
         \<and> (returned r = [] \<longleftrightarrow>
              typeDefinitions = []
              \<or> (handledCaseClauses (runLoop op typeDefinitions) = []
                  \<and> unhandledCaseClauses (runLoop op typeDefinitions) = []))
         \<and> (returned r \<noteq> [] \<longrightarrow>
              returned r = ''switch {'' @ newline
                @ concat (map (\<lambda>caseClause. caseClause @ newline)
                    (caseClauses (runLoop op typeDefinitions)))
                @ ''}'' @ newline
              \<and> caseClauses (runLoop op typeDefinitions) \<noteq> [])))"
  by (auto simp: genResponseUnmarshal_def Let_def caseClauses_Nil_iff)

theorem genResponseUnmarshal_empty_iff_witness:
  "(\<exists>r. genResponseUnmarshal (\<lambda>_. Inr [])
          (operationOf [(''200'', responseOf [''application/json''])]) = Inr r
        \<and> returned r = [])
   \<and> (\<exists>r. genResponseUnmarshal
          (\<lambda>_. Inr [typeDefinitionOf ''404'' ''application/json'' ''JSON404''])
          (operationOf [(''200'', responseOf [''application/json''])]) = Inr r
        \<and> returned r = [])"
proof -
  let ?op = "operationOf [(''200'', responseOf [''application/json''])]"
  let ?tds = "[typeDefinitionOf ''404'' ''application/json'' ''JSON404'']"
  have run: "runLoop ?op ?tds = initialState"
    by (simp add: runLoop_def typeDefinitionStep_def operationOf_def typeDefinitionOf_def)
  then have e: "handledCaseClauses (runLoop ?op ?tds) = []"
    "unhandledCaseClauses (runLoop ?op ?tds) = []"
    by (simp_all add: initialState_def)
  have a: "\<exists>r. genResponseUnmarshal (\<lambda>_. Inr []) ?op = Inr r \<and> returned r = []"
    using genResponseUnmarshal_empty_iff
      [where GetResponseTypeDefinitions = "\<lambda>_. Inr []" and op = ?op and typeDefinitions = "[]"]
    by auto
  have b: "\<exists>r. genResponseUnmarshal (\<lambda>_. Inr ?tds) ?op = Inr r \<and> returned r = []"
    using genResponseUnmarshal_empty_iff
      [where GetResponseTypeDefinitions = "\<lambda>_. Inr ?tds" and op = ?op
         and typeDefinitions = ?tds] e
    by auto
  from a b show ?thesis by simp
qed

lemma runLoop_Nil [simp]: "runLoop op [] = initialState"
  by (simp add: runLoop_def)

lemma runLoop_append_Cons:
  "runLoop op (A @ td # B) =
     fold (typeDefinitionStep op) B (typeDefinitionStep op td (runLoop op A))"
  by (simp add: runLoop_def)


lemma clauses_runLoop_skip:
  assumes "handledEntry op td = None" and "unhandledEntry op td = None"
  shows "handledCaseClauses (runLoop op (A @ td # B)) = handledCaseClauses (runLoop op (A @ B))"
    and "unhandledCaseClauses (runLoop op (A @ td # B)) = unhandledCaseClauses (runLoop op (A @ B))"
  using assms by (simp_all add: handled_runLoop unhandled_runLoop assignEntry_def)

lemma genResponseUnmarshal_Inr:
  "\<exists>r. genResponseUnmarshal (\<lambda>_. Inr typeDefinitions) op = Inr r"
  by (simp add: genResponseUnmarshal_def Let_def)

lemma returned_eq:
  assumes "handledCaseClauses (runLoop op xs) = handledCaseClauses (runLoop op ys)"
    and "unhandledCaseClauses (runLoop op xs) = unhandledCaseClauses (runLoop op ys)"
    and "genResponseUnmarshal (\<lambda>_. Inr xs) op = Inr r"
    and "genResponseUnmarshal (\<lambda>_. Inr ys) op = Inr r'"
  shows "returned r = returned r'"
proof -
  have c: "caseClauses (runLoop op xs) = caseClauses (runLoop op ys)"
    using assms(1,2) by (simp add: caseClauses_def)
  show ?thesis
  proof (cases "xs = []")
    case True
    with assms(1,2) have "handledCaseClauses (runLoop op ys) = []"
      "unhandledCaseClauses (runLoop op ys) = []"
      by (simp_all add: initialState_def)
    with True assms(3,4) show ?thesis
      by (auto simp: genResponseUnmarshal_def Let_def split: if_splits)
  next
    case False
    show ?thesis
    proof (cases "ys = []")
      case True
      with assms(1,2) have "handledCaseClauses (runLoop op xs) = []"
        "unhandledCaseClauses (runLoop op xs) = []"
        by (simp_all add: initialState_def)
      with True assms(3,4) show ?thesis
        by (auto simp: genResponseUnmarshal_def Let_def split: if_splits)
    next
      case ys: False
      with False assms c show ?thesis
        by (auto simp: genResponseUnmarshal_def Let_def split: if_splits)
    qed
  qed
qed

subsection \<open>Records without a usable response\<close>

text \<open>
  C10. A record whose response name is not in the response map of the operation is
  skipped: its iteration changes nothing. A record whose response reference has a nil
  value is skipped after one diagnostic line on the standard error stream. In both
  cases the function returns normally, with the fragment it returns without the
  record.
\<close>

theorem absent_or_nil_response_skipped:
  assumes "Responses (Spec op) (ResponseName td) = None
     \<or> (\<exists>responseRef. Responses (Spec op) (ResponseName td) = Some responseRef
           \<and> Value responseRef = None)"
  shows "typeDefinitionStep op td st =
      (if Responses (Spec op) (ResponseName td) = None then st
       else st\<lparr>stderr := stderr st @
              [''Response '' @ OperationId op @ ''.'' @ ResponseName td
                 @ '' has nil value'' @ newline]\<rparr>)
    \<and> (\<exists>r r'. genResponseUnmarshal (\<lambda>_. Inr (A @ td # B)) op = Inr r
          \<and> genResponseUnmarshal (\<lambda>_. Inr (A @ B)) op = Inr r'
          \<and> returned r = returned r')"
proof -
  have step: "typeDefinitionStep op td st =
      (if Responses (Spec op) (ResponseName td) = None then st
       else st\<lparr>stderr := stderr st @
              [''Response '' @ OperationId op @ ''.'' @ ResponseName td
                 @ '' has nil value'' @ newline]\<rparr>)"
    using assms by (auto simp: typeDefinitionStep_def)
  have none: "handledEntry op td = None" "unhandledEntry op td = None"
    using assms
    by (auto simp: handledEntry_def unhandledEntry_def handledDecoder_def unhandledAction_def
        responseContent_def)
  obtain r where r: "genResponseUnmarshal (\<lambda>_. Inr (A @ td # B)) op = Inr r"
    using genResponseUnmarshal_Inr by blast
  obtain r' where r': "genResponseUnmarshal (\<lambda>_. Inr (A @ B)) op = Inr r'"
    using genResponseUnmarshal_Inr by blast
  have "returned r = returned r'"
    using returned_eq [OF clauses_runLoop_skip [OF none] r r'] .
  with step r r' show ?thesis by blast
qed

theorem absent_or_nil_response_skipped_witness:
  "typeDefinitionStep (operationOf [(''404'', \<lparr>Value = None\<rparr>)])
      (typeDefinitionOf ''200'' ''application/json'' ''JSON200'') initialState = initialState
   \<and> typeDefinitionStep (operationOf [(''404'', \<lparr>Value = None\<rparr>)])
      (typeDefinitionOf ''404'' ''application/json'' ''JSON404'') initialState
     = initialState\<lparr>stderr := [''Response getPet.404 has nil value'' @ newline]\<rparr>"
proof -
  let ?op = "operationOf [(''404'', \<lparr>Value = None\<rparr>)]"
  let ?t1 = "typeDefinitionOf ''200'' ''application/json'' ''JSON200''"
  let ?t2 = "typeDefinitionOf ''404'' ''application/json'' ''JSON404''"
  have h1: "Responses (Spec ?op) (ResponseName ?t1) = None"
    by (simp add: operationOf_def typeDefinitionOf_def)
  have h2: "Responses (Spec ?op) (ResponseName ?t2) = Some \<lparr>Value = None\<rparr>"
    by (simp add: operationOf_def typeDefinitionOf_def)
  have n2: "OperationId ?op = ''getPet''" "ResponseName ?t2 = ''404''"
    by (simp_all add: operationOf_def typeDefinitionOf_def)
  have a: "typeDefinitionStep ?op ?t1 initialState = initialState"
    using absent_or_nil_response_skipped [of ?op ?t1 initialState "[]" "[]"] h1 by simp
  have b: "typeDefinitionStep ?op ?t2 initialState
     = initialState\<lparr>stderr := [''Response getPet.404 has nil value'' @ newline]\<rparr>"
    using absent_or_nil_response_skipped [of ?op ?t2 initialState "[]" "[]"] h2 n2
    by (simp add: initialState_def)
  from a b show ?thesis by simp
qed

subsection \<open>Records of the untyped target type\<close>




lemma handledEntry_SomeD:
  "handledEntry op td = Some (k, c) \<Longrightarrow>
   \<exists>f. handledDecoder op td = Some f \<and> (k, c) = buildUnmarshalCase td (unmarshalAction f td) f"
  by (auto simp: handledEntry_def)

lemma unhandledEntry_SomeD:
  "unhandledEntry op td = Some (k, c) \<Longrightarrow>
   \<exists>a. unhandledAction op td = Some a \<and> k = prefixLeastSpecific @ unhandledClauseKey td
     \<and> c = unhandledClauseKey td @ newline @ a @ newline"
  by (auto simp: unhandledEntry_def)

lemma decoderOf_SomeD:
  "decoderOf c = Some f \<Longrightarrow>
   (f, c) \<in> {''json''} \<times> set contentTypesJSON \<union> {''yaml''} \<times> set contentTypesYAML
     \<union> {''xml''} \<times> set contentTypesXML"
  by (auto simp: decoderOf_def StringInArray_iff split: if_splits)

lemma handledDecoder_SomeD:
  "handledDecoder op td = Some f \<Longrightarrow>
   TypeName td \<noteq> ''interface{}'' \<and> decoderOf (ContentTypeName td) = Some f
   \<and> (\<exists>c. responseContent op td = Some c \<and> ContentTypeName td \<in> set c)"
  by (auto simp: handledDecoder_def split: option.splits if_splits)

lemma handled_origin:
  assumes "map_of (handledCaseClauses (runLoop op tds)) k = Some c"
  shows "\<exists>td \<in> set tds. handledEntry op td = Some (k, c)"
  using map_of_fold_assignEntry_origin [of "handledEntry op" tds "[]" k c] assms
  by (simp add: handled_runLoop)

lemma unhandled_origin:
  assumes "map_of (unhandledCaseClauses (runLoop op tds)) k = Some c"
  shows "\<exists>td \<in> set tds. unhandledEntry op td = Some (k, c)"
  using map_of_fold_assignEntry_origin [of "unhandledEntry op" tds "[]" k c] assms
  by (simp add: unhandled_runLoop)

subsection \<open>The content-type tables\<close>

text \<open>
  C9. The three family tables are fixed: the JSON table is \<open>application/json\<close> and
  \<open>text/x-json\<close>, the YAML table is \<open>application/yaml\<close>, \<open>application/x-yaml\<close>,
  \<open>text/yaml\<close> and \<open>text/x-yaml\<close>, the XML table is \<open>application/xml\<close> and
  \<open>text/xml\<close>. A handled clause is built with the decoder of a family only for a
  record whose content type is a member of the table of that family.
\<close>

theorem content_type_families:
  "contentTypesJSON = [''application/json'', ''text/x-json'']
   \<and> contentTypesYAML = [''application/yaml'', ''application/x-yaml'', ''text/yaml'', ''text/x-yaml'']
   \<and> contentTypesXML = [''application/xml'', ''text/xml'']
   \<and> (map_of (handledCaseClauses (runLoop op typeDefinitions)) caseKey = Some caseClause \<longrightarrow>
        (\<exists>td \<in> set typeDefinitions.
           \<exists>(decoder, table) \<in> set [(''json'', contentTypesJSON), (''yaml'', contentTypesYAML),
                                     (''xml'', contentTypesXML)].
             ContentTypeName td \<in> set table
             \<and> TypeName td \<noteq> ''interface{}''
             \<and> (caseKey, caseClause) = buildUnmarshalCase td (unmarshalAction decoder td) decoder))"
proof -
  have tables: "contentTypesJSON = [''application/json'', ''text/x-json'']"
    "contentTypesYAML = [''application/yaml'', ''application/x-yaml'', ''text/yaml'', ''text/x-yaml'']"
    "contentTypesXML = [''application/xml'', ''text/xml'']"
    by (simp_all add: contentTypesJSON_def contentTypesYAML_def contentTypesXML_def
        MIMEApplicationJSON_def MIMEApplicationXML_def MIMETextXML_def)
  have "\<exists>td \<in> set typeDefinitions.
           \<exists>(decoder, table) \<in> set [(''json'', contentTypesJSON), (''yaml'', contentTypesYAML),
                                     (''xml'', contentTypesXML)].
             ContentTypeName td \<in> set table
             \<and> TypeName td \<noteq> ''interface{}''
             \<and> (caseKey, caseClause) = buildUnmarshalCase td (unmarshalAction decoder td) decoder"
    if "map_of (handledCaseClauses (runLoop op typeDefinitions)) caseKey = Some caseClause"
  proof -
    from handled_origin [OF that] obtain td where td: "td \<in> set typeDefinitions"
      and e: "handledEntry op td = Some (caseKey, caseClause)" by blast
    from handledEntry_SomeD [OF e] obtain f where f: "handledDecoder op td = Some f"
      and b: "(caseKey, caseClause) = buildUnmarshalCase td (unmarshalAction f td) f" by blast
    from handledDecoder_SomeD [OF f] have s: "TypeName td \<noteq> ''interface{}''"
      and d: "decoderOf (ContentTypeName td) = Some f" by simp_all
    from decoderOf_SomeD [OF d] have
      "(f, contentTypesJSON) \<in> set [(''json'', contentTypesJSON), (''yaml'', contentTypesYAML),
                                     (''xml'', contentTypesXML)] \<and> ContentTypeName td \<in> set contentTypesJSON
       \<or> (f, contentTypesYAML) \<in> set [(''json'', contentTypesJSON), (''yaml'', contentTypesYAML),
                                     (''xml'', contentTypesXML)] \<and> ContentTypeName td \<in> set contentTypesYAML
       \<or> (f, contentTypesXML) \<in> set [(''json'', contentTypesJSON), (''yaml'', contentTypesYAML),
                                     (''xml'', contentTypesXML)] \<and> ContentTypeName td \<in> set contentTypesXML"
      by auto
    with td s b show ?thesis by blast
  qed
  with tables show ?thesis by blast
qed

theorem content_type_families_witness:
  "map_of (handledCaseClauses (runLoop (operationOf [(''200'', responseOf [''application/json''])])
       [typeDefinitionOf ''200'' ''application/json'' ''JSON200''])) ''9.json.200''
     = Some (snd (buildUnmarshalCase (typeDefinitionOf ''200'' ''application/json'' ''JSON200'')
          (unmarshalAction ''json'' (typeDefinitionOf ''200'' ''application/json'' ''JSON200'')) ''json''))
   \<and> (\<exists>td \<in> set [typeDefinitionOf ''200'' ''application/json'' ''JSON200''].
           \<exists>(decoder, table) \<in> set [(''json'', contentTypesJSON), (''yaml'', contentTypesYAML),
                                     (''xml'', contentTypesXML)].
             ContentTypeName td \<in> set table)"
proof -
  let ?op = "operationOf [(''200'', responseOf [''application/json''])]"
  let ?td = "typeDefinitionOf ''200'' ''application/json'' ''JSON200''"
  let ?c = "snd (buildUnmarshalCase ?td (unmarshalAction ''json'' ?td) ''json'')"
  have m: "map_of (handledCaseClauses (runLoop ?op [?td])) ''9.json.200'' = Some ?c"
    by code_simp
  from content_type_families [of ?op "[?td]" "''9.json.200''" ?c] m
  show ?thesis by blast
qed

lemma count_list_sort_distinct:
  assumes "distinct xs" and "x \<in> set xs"
  shows "count_list (sort xs) x = 1"
proof -
  have "count_list (sort xs) x = count (mset (sort xs)) x"
    by (simp only: count_mset)
  also have "\<dots> = count (mset xs) x"
    by (simp only: mset_sort)
  also have "\<dots> = 1"
    using assms by (metis distinct_count_atmost_1)
  finally show ?thesis .
qed

lemma distinct_keys_runLoop:
  "distinct (map fst (handledCaseClauses (runLoop op tds)))"
  "distinct (map fst (unhandledCaseClauses (runLoop op tds)))"
  by (simp_all add: handled_runLoop unhandled_runLoop distinct_fold_assignEntry)

lemma map_of_assignEntry_Nil:
  "map_of (assignEntry e []) k = Some v \<longleftrightarrow> e = Some (k, v)"
  by (auto simp: map_of_assignEntry split: option.splits if_splits)

lemma keys_assignEntry_Nil:
  "k \<notin> fst ` set (assignEntry e []) \<longleftrightarrow> (\<forall>v. e \<noteq> Some (k, v))"
  by (auto simp: keys_assignEntry split: option.splits)

lemma step_initial:
  "handledCaseClauses (typeDefinitionStep op td initialState) = assignEntry (handledEntry op td) []"
  "unhandledCaseClauses (typeDefinitionStep op td initialState) = assignEntry (unhandledEntry op td) []"
  by (simp_all add: handled_typeDefinitionStep unhandled_typeDefinitionStep initialState_def)

lemma clause_printed:
  assumes "map_of (handledCaseClauses st) k = Some v \<or> map_of (unhandledCaseClauses st) k = Some v"
  shows "v \<in> set (caseClauses st)"
proof -
  have "v \<in> mapIndex m ` set (SortedStringKeys m)" if "map_of m k = Some v" for m
  proof -
    from map_of_SomeD [OF that] have "k \<in> fst ` set m" by force
    then have "k \<in> set (SortedStringKeys m)" by (simp add: SortedStringKeys_def)
    moreover have "mapIndex m k = v" using that by (simp add: mapIndex_def)
    ultimately show ?thesis by blast
  qed
  with assms show ?thesis by (auto simp: caseClauses_def)
qed

subsection \<open>Records that share a sort key\<close>

text \<open>
  C4. When several records reduce to the same sort key of a clause map, the key is
  printed once, and the clause printed for it is the one assigned last: the clause of
  the last record of the list that assigns the key, whatever the records before it
  assigned. So no two clauses of the fragment come from records that share a sort key.
\<close>

theorem shared_sort_key_last_assignment:
  assumes "clauses = handledCaseClauses \<or> clauses = unhandledCaseClauses"
    and "map_of (clauses (typeDefinitionStep op td initialState)) k = Some v"
    and "\<forall>td' \<in> set B. k \<notin> fst ` set (clauses (typeDefinitionStep op td' initialState))"
  shows "count_list (SortedStringKeys (clauses (runLoop op (A @ td # B)))) k = 1
    \<and> mapIndex (clauses (runLoop op (A @ td # B))) k = v
    \<and> v \<in> set (caseClauses (runLoop op (A @ td # B)))"
proof -
  obtain e where e: "\<And>tds. clauses (runLoop op tds) = fold (\<lambda>td. assignEntry (e td)) tds []"
    and init: "\<And>td. clauses (typeDefinitionStep op td initialState) = assignEntry (e td) []"
    using assms(1) handled_runLoop unhandled_runLoop step_initial by metis
  have last: "e td = Some (k, v)"
    using assms(2) by (simp add: init map_of_assignEntry_Nil)
  have later: "\<forall>y \<in> set B. \<forall>v'. e y \<noteq> Some (k, v')"
    using assms(3) by (simp add: init keys_assignEntry_Nil)
  have m: "map_of (clauses (runLoop op (A @ td # B))) k = Some v"
    unfolding e using last later by (rule map_of_fold_assignEntry_last)
  from map_of_SomeD [OF m] have key: "k \<in> set (map fst (clauses (runLoop op (A @ td # B))))"
    by force
  have d: "distinct (map fst (clauses (runLoop op (A @ td # B))))"
    using assms(1) distinct_keys_runLoop by auto
  have "count_list (SortedStringKeys (clauses (runLoop op (A @ td # B)))) k = 1"
    unfolding SortedStringKeys_def using d key by (rule count_list_sort_distinct)
  moreover have "mapIndex (clauses (runLoop op (A @ td # B))) k = v"
    using m by (simp add: mapIndex_def)
  moreover have "v \<in> set (caseClauses (runLoop op (A @ td # B)))"
    using assms(1) m clause_printed by blast
  ultimately show ?thesis by simp
qed

theorem shared_sort_key_last_assignment_witness:
  "count_list (SortedStringKeys (handledCaseClauses
      (runLoop (operationOf [(''200'', responseOf [''application/json'', ''text/x-json'']),
                             (''404'', responseOf [])])
         [typeDefinitionOf ''200'' ''application/json'' ''Pet'',
          typeDefinitionOf ''200'' ''text/x-json'' ''Animal'',
          typeDefinitionOf ''404'' [] []]))) ''9.json.200'' = 1
   \<and> mapIndex (handledCaseClauses
      (runLoop (operationOf [(''200'', responseOf [''application/json'', ''text/x-json'']),
                             (''404'', responseOf [])])
         [typeDefinitionOf ''200'' ''application/json'' ''Pet'',
          typeDefinitionOf ''200'' ''text/x-json'' ''Animal'',
          typeDefinitionOf ''404'' [] []])) ''9.json.200''
     = snd (buildUnmarshalCase (typeDefinitionOf ''200'' ''text/x-json'' ''Animal'')
         (unmarshalAction ''json'' (typeDefinitionOf ''200'' ''text/x-json'' ''Animal'')) ''json'')"
proof -
  let ?op = "operationOf [(''200'', responseOf [''application/json'', ''text/x-json'']),
                             (''404'', responseOf [])]"
  let ?t1 = "typeDefinitionOf ''200'' ''application/json'' ''Pet''"
  let ?t2 = "typeDefinitionOf ''200'' ''text/x-json'' ''Animal''"
  let ?t3 = "typeDefinitionOf ''404'' [] []"
  let ?v = "snd (buildUnmarshalCase ?t2 (unmarshalAction ''json'' ?t2) ''json'')"
  have h1: "map_of (handledCaseClauses (typeDefinitionStep ?op ?t2 initialState)) ''9.json.200''
      = Some ?v"
    by code_simp
  have h2: "\<forall>td' \<in> set [?t3].
      ''9.json.200'' \<notin> fst ` set (handledCaseClauses (typeDefinitionStep ?op td' initialState))"
    by code_simp
  from shared_sort_key_last_assignment [of handledCaseClauses ?op ?t2 "''9.json.200''" ?v "[?t3]" "[?t1]"]
    h1 h2
  show ?thesis by simp
qed

lemma cond_default: "getConditionOfResponseName ''rsp.StatusCode'' n = ''true'' \<longleftrightarrow> n = ''default''"
  by (simp add: getConditionOfResponseName_def)

lemma cond_form:
  "getConditionOfResponseName ''rsp.StatusCode'' n =
     (if n = ''default'' then ''true''
      else ''rsp.StatusCode '' @ (if n \<in> set [''1XX'', ''2XX'', ''3XX'', ''4XX'', ''5XX'']
         then ''/ 100 == '' @ take 1 n else ''== '' @ n))"
  by (simp add: getConditionOfResponseName_def)

lemma take1_wild:
  "n \<in> set [''1XX'', ''2XX'', ''3XX'', ''4XX'', ''5XX''] \<Longrightarrow> n = take 1 n @ ''XX''"
  by auto

lemma getConditionOfResponseName_inj:
  assumes "getConditionOfResponseName ''rsp.StatusCode'' n = getConditionOfResponseName ''rsp.StatusCode'' n'"
  shows "n = n'"
proof (cases "n = ''default'' \<or> n' = ''default''")
  case True
  with assms show ?thesis by (metis cond_default)
next
  case False
  let ?W = "set [''1XX'', ''2XX'', ''3XX'', ''4XX'', ''5XX'']"
  from False have nd: "n \<noteq> ''default''" "n' \<noteq> ''default''" by blast+
  from assms have "''rsp.StatusCode '' @ (if n \<in> ?W then ''/ 100 == '' @ take 1 n else ''== '' @ n)
      = ''rsp.StatusCode '' @ (if n' \<in> ?W then ''/ 100 == '' @ take 1 n' else ''== '' @ n')"
    by (simp only: cond_form nd if_False)
  then have eq: "(if n \<in> ?W then ''/ 100 == '' @ take 1 n else ''== '' @ n)
      = (if n' \<in> ?W then ''/ 100 == '' @ take 1 n' else ''== '' @ n')"
    by (simp only: same_append_eq)
  show ?thesis
  proof (cases "n \<in> ?W")
    case nW: True
    show ?thesis
    proof (cases "n' \<in> ?W")
      case True
      with nW eq have "take 1 n = take 1 n'" by simp
      with take1_wild [OF nW] take1_wild [OF True] show ?thesis by metis
    next
      case False
      with nW eq show ?thesis by simp
    qed
  next
    case nW: False
    show ?thesis
    proof (cases "n' \<in> ?W")
      case True
      with nW eq show ?thesis by simp
    next
      case False
      with nW eq show ?thesis by simp
    qed
  qed
qed

lemma unhandledClauseKey_inj:
  "unhandledClauseKey td = unhandledClauseKey td' \<Longrightarrow> ResponseName td = ResponseName td'"
  by (auto simp: unhandledClauseKey_def dest: getConditionOfResponseName_inj)


lemma unhandled_key_present:
  assumes "td \<in> set tds" and "unhandledAction op td = Some a"
  shows "\<exists>td' \<in> set tds. \<exists>a'. unhandledAction op td' = Some a'
      \<and> ResponseName td' = ResponseName td
      \<and> map_of (unhandledCaseClauses (runLoop op tds)) (prefixLeastSpecific @ unhandledClauseKey td)
          = Some (unhandledClauseKey td @ newline @ a' @ newline)"
proof -
  let ?K = "prefixLeastSpecific @ unhandledClauseKey td"
  let ?u = "unhandledCaseClauses (runLoop op tds)"
  from assms have "?K \<in> fst ` set ?u"
    by (force simp: unhandled_runLoop keys_fold_assignEntry unhandledEntry_def)
  then obtain v where v: "map_of ?u ?K = Some v"
    by (metis map_of_eq_None_iff not_None_eq)
  from unhandled_origin [OF v] obtain td' where td': "td' \<in> set tds"
    and e: "unhandledEntry op td' = Some (?K, v)" by blast
  from unhandledEntry_SomeD [OF e] obtain a' where a': "unhandledAction op td' = Some a'"
    and k: "?K = prefixLeastSpecific @ unhandledClauseKey td'"
    and c: "v = unhandledClauseKey td' @ newline @ a' @ newline" by blast
  from k have "unhandledClauseKey td' = unhandledClauseKey td" by simp
  with unhandledClauseKey_inj have "ResponseName td' = ResponseName td" by blast
  with td' a' v c \<open>unhandledClauseKey td' = unhandledClauseKey td\<close> show ?thesis by auto
qed



subsection \<open>Unhandled clauses\<close>




subsection \<open>The place of the default clause\<close>

lemma unhandled_key_le_default:
  "prefixLeastSpecific @ unhandledClauseKey td \<le> ''9case true:''"
proof (cases "ResponseName td = ''default''")
  case True
  then show ?thesis
    by (simp add: prefixLeastSpecific_def unhandledClauseKey_def cond_form)
next
  case False
  then show ?thesis
    by (simp add: prefixLeastSpecific_def unhandledClauseKey_def cond_form less_char_def)
qed

lemma sorted_le_last:
  "sorted xs \<Longrightarrow> x \<in> set xs \<Longrightarrow> x \<le> last xs"
  by (induction xs) (auto split: if_splits)

lemma sorted_last_eq:
  fixes k :: "'a :: linorder"
  assumes "sorted xs" and "k \<in> set xs" and "\<forall>x \<in> set xs. x \<le> k"
  shows "last xs = k"
proof -
  from assms(2) have "xs \<noteq> []" by auto
  then have "last xs \<in> set xs" by (rule last_in_set)
  with assms(3) have "last xs \<le> k" by blast
  moreover from assms(1,2) have "k \<le> last xs" by (rule sorted_le_last)
  ultimately show ?thesis by (rule antisym)
qed

lemma unhandled_keys_bounded:
  assumes "k \<in> set (SortedStringKeys (unhandledCaseClauses (runLoop op tds)))"
  shows "k \<le> ''9case true:''"
proof -
  from assms have "k \<in> fst ` set (unhandledCaseClauses (runLoop op tds))"
    by (simp add: SortedStringKeys_def)
  then obtain td v where "unhandledEntry op td = Some (k, v)"
    by (auto simp: unhandled_runLoop keys_fold_assignEntry)
  from unhandledEntry_SomeD [OF this] show ?thesis
    by (auto simp: unhandled_key_le_default)
qed

lemma unhandledClauseKey_default:
  "unhandledClauseKey td = ''case true:'' \<longleftrightarrow> ResponseName td = ''default''"
  by (simp add: unhandledClauseKey_def cond_default)

text \<open>
  C2 as stated puts the clause of \<open>default\<close> last whether it is handled or not. The
  handled clauses are printed first, so a handled \<open>default\<close> clause comes before every
  unhandled clause: with a JSON response \<open>default\<close>, an XML response \<open>200\<close> and a
  response \<open>404\<close> without content, the clause of \<open>default\<close> is the first of three.
\<close>

theorem default_last_counterexample:
  \<open>genResponseUnmarshal
     (\<lambda>_. Inr [typeDefinitionOf ''200'' ''application/xml'' ''XML200'',
               typeDefinitionOf ''404'' [] [],
               typeDefinitionOf ''default'' ''application/json'' ''JSONDefault''])
     (operationOf [(''200'', responseOf [''application/xml'']), (''404'', responseOf []),
                   (''default'', responseOf [''application/json''])])
   = Inr \<lparr>returned = concat (map (\<lambda>line. line @ newline)
       [''switch {'',
        ''case strings.Contains(rsp.Header.Get("Content-Type"), "json") && true:'',
        ''var dest JSONDefault'',
        ''if err := json.Unmarshal(bodyBytes, &dest); err != nil { '',
        '' return nil, err '',
        ''}'',
        ''response.JSONDefault = &dest'',
        '''',
        ''case strings.Contains(rsp.Header.Get("Content-Type"), "xml") && rsp.StatusCode == 200:'',
        ''var dest XML200'',
        ''if err := xml.Unmarshal(bodyBytes, &dest); err != nil { '',
        '' return nil, err '',
        ''}'',
        ''response.XML200 = &dest'',
        '''',
        ''case rsp.StatusCode == 404:'',
        ''break // No content-type'',
        '''',
        ''}'']), printed = []\<rparr>\<close>
  by code_simp

text \<open>
  C2, amended. When a record of the response key \<open>default\<close> yields an unhandled
  clause, the clause of \<open>default\<close>, whose condition is the literal \<open>true\<close>, is the
  last clause that the function prints, whatever the other clauses are.
\<close>

theorem unhandled_default_last:
  assumes "td \<in> set typeDefinitions"
    and "ResponseName td = ''default''"
    and "unhandledCaseClauses (typeDefinitionStep op td initialState) \<noteq> []"
  shows "caseClauses (runLoop op typeDefinitions) \<noteq> []
    \<and> (\<exists>caseAction. last (caseClauses (runLoop op typeDefinitions))
          = ''case true:'' @ newline @ caseAction @ newline)"
proof -
  let ?u = "unhandledCaseClauses (runLoop op typeDefinitions)"
  from assms(3) obtain a where a: "unhandledAction op td = Some a"
    by (auto simp: step_initial assignEntry_def unhandledEntry_def split: option.splits)
  have key: "unhandledClauseKey td = ''case true:''"
    using assms(2) by (simp add: unhandledClauseKey_default)
  from unhandled_key_present [OF assms(1) a] obtain a'
    where m: "map_of ?u ''9case true:'' = Some (''case true:'' @ newline @ a' @ newline)"
    by (auto simp: key prefixLeastSpecific_def)
  from map_of_SomeD [OF m] have "''9case true:'' \<in> fst ` set ?u" by force
  then have mem: "''9case true:'' \<in> set (SortedStringKeys ?u)"
    by (simp add: SortedStringKeys_def)
  have "last (SortedStringKeys ?u) = ''9case true:''"
  proof (rule sorted_last_eq)
    show "sorted (SortedStringKeys ?u)" by (simp add: SortedStringKeys_def)
    show "''9case true:'' \<in> set (SortedStringKeys ?u)" by (rule mem)
    show "\<forall>x \<in> set (SortedStringKeys ?u). x \<le> ''9case true:''"
      using unhandled_keys_bounded by blast
  qed
  moreover from mem have ne: "SortedStringKeys ?u \<noteq> []" by auto
  ultimately have "last (caseClauses (runLoop op typeDefinitions)) = mapIndex ?u ''9case true:''"
    by (simp add: caseClauses_def last_map)
  also have "\<dots> = ''case true:'' @ newline @ a' @ newline"
    using m by (simp add: mapIndex_def)
  finally have "last (caseClauses (runLoop op typeDefinitions))
      = ''case true:'' @ newline @ a' @ newline" .
  moreover from ne have "caseClauses (runLoop op typeDefinitions) \<noteq> []"
    by (simp add: caseClauses_def)
  ultimately show ?thesis by blast
qed

theorem unhandled_default_last_witness:
  "caseClauses (runLoop
       (operationOf [(''404'', responseOf []), (''default'', responseOf [])])
       [typeDefinitionOf ''default'' [] [], typeDefinitionOf ''404'' [] []]) \<noteq> []
   \<and> (\<exists>caseAction. last (caseClauses (runLoop
       (operationOf [(''404'', responseOf []), (''default'', responseOf [])])
       [typeDefinitionOf ''default'' [] [], typeDefinitionOf ''404'' [] []]))
     = ''case true:'' @ newline @ caseAction @ newline)"
proof -
  let ?op = "operationOf [(''404'', responseOf []), (''default'', responseOf [])]"
  let ?td = "typeDefinitionOf ''default'' [] []"
  let ?tds = "[?td, typeDefinitionOf ''404'' [] []]"
  have h: "unhandledCaseClauses (typeDefinitionStep ?op ?td initialState) \<noteq> []"
    by code_simp
  have n: "ResponseName ?td = ''default''"
    by (simp add: typeDefinitionOf_def)
  have m: "?td \<in> set ?tds" by simp
  from unhandled_default_last [OF m n h] show ?thesis .
qed

subsection \<open>Precedence among the clauses\<close>

lemma sorted_split2:
  fixes a :: "'a :: linorder"
  assumes "sorted xs" and "a \<in> set xs" and "b \<in> set xs" and "a < b"
  shows "\<exists>A B C. xs = A @ [a] @ B @ [b] @ C"
proof -
  from split_list [OF assms(2)] obtain A R where xs: "xs = A @ a # R" by blast
  have "b \<notin> set A"
  proof
    assume "b \<in> set A"
    with assms(1) xs have "b \<le> a" by (simp add: sorted_append)
    with assms(4) show False by simp
  qed
  with assms(3,4) xs have "b \<in> set R" by auto
  from split_list [OF this] obtain B C where "R = B @ b # C" by blast
  with xs show ?thesis by auto
qed

lemma sorted_split3:
  fixes a :: "'a :: linorder"
  assumes "sorted xs" and "a \<in> set xs" and "b \<in> set xs" and "c \<in> set xs"
    and "a < b" and "b < c"
  shows "\<exists>A B C D. xs = A @ [a] @ B @ [b] @ C @ [c] @ D"
proof -
  from split_list [OF assms(2)] obtain A R where xs: "xs = A @ a # R" by blast
  have notA: "x \<notin> set A" if "a < x" for x
  proof
    assume "x \<in> set A"
    with assms(1) xs have "x \<le> a" by (simp add: sorted_append)
    with that show False by simp
  qed
  from assms(5,6) have "a < c" by simp
  with notA assms(3,4,5) xs have bR: "b \<in> set R" and cR: "c \<in> set R" by auto
  from assms(1) xs have "sorted R" by (simp add: sorted_append)
  from sorted_split2 [OF this bR cR assms(6)] obtain B C D where "R = B @ [b] @ C @ [c] @ D"
    by blast
  with xs show ?thesis by auto
qed

lemma append_less_mono: "(xs :: 'a :: linorder list) @ ys < xs @ zs \<longleftrightarrow> ys < zs"
  by (induction xs) simp_all

lemma fst_buildUnmarshalCase:
  "fst (buildUnmarshalCase td action f) = handledKey f (ResponseName td)"
  by (simp add: buildUnmarshalCase_def handledKey_def Let_def)

lemma handledKey_less: "handledKey f n < handledKey f n' \<longleftrightarrow> n < n'"
  unfolding handledKey_def by (simp only: append_less_mono)

lemma exact_less_range:
  assumes "b \<in> set ''0123456789''"
  shows "[a, b, c] < [a, CHR ''X'', CHR ''X'']"
  using assms by (auto simp: less_char_def)

lemma range_less_default:
  assumes "a \<in> set ''12345''"
  shows "[a, CHR ''X'', CHR ''X''] < ''default''"
  using assms by (auto simp: less_char_def)

lemma handledKey_inj:
  assumes "handledKey f n = handledKey f' n'"
    and "f \<in> {''json'', ''yaml'', ''xml''}" and "f' \<in> {''json'', ''yaml'', ''xml''}"
  shows "f = f' \<and> n = n'"
  using assms by (auto simp: handledKey_def)

lemma handledDecoder_range:
  "handledDecoder op td = Some f \<Longrightarrow> f \<in> {''json'', ''yaml'', ''xml''}"
  by (auto dest!: handledDecoder_SomeD decoderOf_SomeD)

lemma handled_key_present:
  assumes "td \<in> set tds" and "handledDecoder op td = Some f"
  shows "\<exists>td' \<in> set tds. handledDecoder op td' = Some f
      \<and> ResponseName td' = ResponseName td
      \<and> map_of (handledCaseClauses (runLoop op tds)) (handledKey f (ResponseName td))
          = Some (snd (buildUnmarshalCase td' (unmarshalAction f td') f))"
proof -
  let ?K = "handledKey f (ResponseName td)"
  let ?h = "handledCaseClauses (runLoop op tds)"
  have e: "handledEntry op td = Some (buildUnmarshalCase td (unmarshalAction f td) f)"
    using assms(2) by (simp add: handledEntry_def)
  have "fst (buildUnmarshalCase td (unmarshalAction f td) f) \<in> fst ` set ?h"
    unfolding handled_runLoop keys_fold_assignEntry using assms(1) e
    by (metis (mono_tags, lifting) UnI2 mem_Collect_eq prod.collapse)
  then have "?K \<in> fst ` set ?h" by (simp add: fst_buildUnmarshalCase)
  then obtain v where v: "map_of ?h ?K = Some v"
    by (metis map_of_eq_None_iff not_None_eq)
  from handled_origin [OF v] obtain td' where td': "td' \<in> set tds"
    and e': "handledEntry op td' = Some (?K, v)" by blast
  from handledEntry_SomeD [OF e'] obtain f' where f': "handledDecoder op td' = Some f'"
    and b: "(?K, v) = buildUnmarshalCase td' (unmarshalAction f' td') f'" by blast
  from b have "?K = handledKey f' (ResponseName td')"
    by (metis fst_buildUnmarshalCase fst_conv)
  from handledKey_inj [OF this handledDecoder_range [OF assms(2)] handledDecoder_range [OF f']]
  have "f = f'" "ResponseName td' = ResponseName td" by simp_all
  moreover from b have "v = snd (buildUnmarshalCase td' (unmarshalAction f' td') f')"
    by (metis snd_conv)
  ultimately show ?thesis using td' f' v by auto
qed

lemma handledDecoder_of_step:
  assumes "handledCaseClauses (typeDefinitionStep op t initialState)
      = [buildUnmarshalCase t (unmarshalAction decoder t) decoder]"
  shows "handledDecoder op t = Some decoder"
proof -
  from assms have "assignEntry (handledEntry op t) []
      = [buildUnmarshalCase t (unmarshalAction decoder t) decoder]"
    by (simp add: step_initial)
  then have "handledEntry op t = Some (buildUnmarshalCase t (unmarshalAction decoder t) decoder)"
    by (cases "handledEntry op t") (auto simp: assignEntry_def mapAssign_def)
  then obtain f where f: "handledDecoder op t = Some f"
    and b: "buildUnmarshalCase t (unmarshalAction f t) f
       = buildUnmarshalCase t (unmarshalAction decoder t) decoder"
    by (auto simp: handledEntry_def)
  from b have "handledKey f (ResponseName t) = handledKey decoder (ResponseName t)"
    by (metis fst_buildUnmarshalCase)
  then have "f = decoder" by (simp add: handledKey_def)
  with f show ?thesis by simp
qed

text \<open>
  C1 as stated puts the clause of an exact code before the clause of its range
  wildcard, and that one before the clause of \<open>default\<close>, in every fragment. The
  function prints the handled clauses first, in the order of their keys (decoder, then
  response name), and the unhandled clauses after them: with a response \<open>204\<close> without
  content, an XML response \<open>2XX\<close> and a JSON response \<open>default\<close>, the clause of
  \<open>default\<close> comes first, the clause of \<open>2XX\<close> second and the clause of \<open>204\<close> last.
\<close>

theorem precedence_counterexample:
  \<open>genResponseUnmarshal
     (\<lambda>_. Inr [typeDefinitionOf ''204'' [] [],
               typeDefinitionOf ''2XX'' ''application/xml'' ''XML2XX'',
               typeDefinitionOf ''default'' ''application/json'' ''JSONDefault''])
     (operationOf [(''204'', responseOf []), (''2XX'', responseOf [''application/xml'']),
                   (''default'', responseOf [''application/json''])])
   = Inr \<lparr>returned = concat (map (\<lambda>line. line @ newline)
       [''switch {'',
        ''case strings.Contains(rsp.Header.Get("Content-Type"), "json") && true:'',
        ''var dest JSONDefault'',
        ''if err := json.Unmarshal(bodyBytes, &dest); err != nil { '',
        '' return nil, err '',
        ''}'',
        ''response.JSONDefault = &dest'',
        '''',
        ''case strings.Contains(rsp.Header.Get("Content-Type"), "xml") && rsp.StatusCode / 100 == 2:'',
        ''var dest XML2XX'',
        ''if err := xml.Unmarshal(bodyBytes, &dest); err != nil { '',
        '' return nil, err '',
        ''}'',
        ''response.XML2XX = &dest'',
        '''',
        ''case rsp.StatusCode == 204:'',
        ''break // No content-type'',
        '''',
        ''}'']), printed = []\<rparr>\<close>
  by code_simp

text \<open>
  C1, amended. When an exact three-digit code, the range wildcard of its family and
  \<open>default\<close> each have a record that is handled with the same decoder, the handled
  clause of the exact code is printed strictly before the handled clause of the range
  wildcard, and that one strictly before the handled clause of \<open>default\<close>, for every
  permutation of the list of records.
\<close>

theorem handled_precedence:
  assumes "mset typeDefinitions' = mset typeDefinitions"
    and "{te, tr, td} \<subseteq> set typeDefinitions"
    and "\<forall>t \<in> {te, tr, td}. handledCaseClauses (typeDefinitionStep op t initialState)
           = [buildUnmarshalCase t (unmarshalAction decoder t) decoder]"
    and "a \<in> set ''12345''" and "b \<in> set ''0123456789''" and "c \<in> set ''0123456789''"
    and "ResponseName te = [a, b, c]"
    and "ResponseName tr = [a, CHR ''X'', CHR ''X'']"
    and "ResponseName td = ''default''"
  shows "\<exists>A B C D te' tr' td'.
      caseClauses (runLoop op typeDefinitions')
        = A @ [snd (buildUnmarshalCase te' (unmarshalAction decoder te') decoder)]
          @ B @ [snd (buildUnmarshalCase tr' (unmarshalAction decoder tr') decoder)]
          @ C @ [snd (buildUnmarshalCase td' (unmarshalAction decoder td') decoder)] @ D
      \<and> {te', tr', td'} \<subseteq> set typeDefinitions'
      \<and> ResponseName te' = [a, b, c]
      \<and> ResponseName tr' = [a, CHR ''X'', CHR ''X'']
      \<and> ResponseName td' = ''default''"
proof -
  let ?h = "handledCaseClauses (runLoop op typeDefinitions')"
  let ?ke = "handledKey decoder [a, b, c]"
  let ?kr = "handledKey decoder [a, CHR ''X'', CHR ''X'']"
  let ?kd = "handledKey decoder ''default''"
  from assms(1) have set_eq: "set typeDefinitions' = set typeDefinitions"
    by (rule mset_eq_setD)
  from assms(2) set_eq have mem: "te \<in> set typeDefinitions'" "tr \<in> set typeDefinitions'"
    "td \<in> set typeDefinitions'" by simp_all
  from assms(3) have dec: "handledDecoder op te = Some decoder"
    "handledDecoder op tr = Some decoder" "handledDecoder op td = Some decoder"
    by (simp_all add: handledDecoder_of_step)
  from handled_key_present [OF mem(1) dec(1)] assms(7) obtain te'
    where te': "te' \<in> set typeDefinitions'" "ResponseName te' = [a, b, c]"
      "map_of ?h ?ke = Some (snd (buildUnmarshalCase te' (unmarshalAction decoder te') decoder))"
    by auto
  from handled_key_present [OF mem(2) dec(2)] assms(8) obtain tr'
    where tr': "tr' \<in> set typeDefinitions'" "ResponseName tr' = [a, CHR ''X'', CHR ''X'']"
      "map_of ?h ?kr = Some (snd (buildUnmarshalCase tr' (unmarshalAction decoder tr') decoder))"
    by auto
  from handled_key_present [OF mem(3) dec(3)] assms(9) obtain td'
    where td': "td' \<in> set typeDefinitions'" "ResponseName td' = ''default''"
      "map_of ?h ?kd = Some (snd (buildUnmarshalCase td' (unmarshalAction decoder td') decoder))"
    by auto
  have keys: "?ke \<in> set (SortedStringKeys ?h)" "?kr \<in> set (SortedStringKeys ?h)"
    "?kd \<in> set (SortedStringKeys ?h)"
    using map_of_SomeD [OF te'(3)] map_of_SomeD [OF tr'(3)] map_of_SomeD [OF td'(3)]
    by (force simp: SortedStringKeys_def)+
  have less: "?ke < ?kr" "?kr < ?kd"
    using exact_less_range [OF assms(5)] range_less_default [OF assms(4)]
    by (simp_all only: handledKey_less)
  have "sorted (SortedStringKeys ?h)" by (simp add: SortedStringKeys_def)
  from sorted_split3 [OF this keys less] obtain A B C D
    where split: "SortedStringKeys ?h = A @ [?ke] @ B @ [?kr] @ C @ [?kd] @ D" by blast
  let ?U = "map (mapIndex (unhandledCaseClauses (runLoop op typeDefinitions')))
      (SortedStringKeys (unhandledCaseClauses (runLoop op typeDefinitions')))"
  have "caseClauses (runLoop op typeDefinitions')
      = map (mapIndex ?h) A @ [mapIndex ?h ?ke] @ map (mapIndex ?h) B @ [mapIndex ?h ?kr]
        @ map (mapIndex ?h) C @ [mapIndex ?h ?kd] @ (map (mapIndex ?h) D @ ?U)"
    unfolding caseClauses_def split by simp
  moreover have "mapIndex ?h ?ke = snd (buildUnmarshalCase te' (unmarshalAction decoder te') decoder)"
    "mapIndex ?h ?kr = snd (buildUnmarshalCase tr' (unmarshalAction decoder tr') decoder)"
    "mapIndex ?h ?kd = snd (buildUnmarshalCase td' (unmarshalAction decoder td') decoder)"
    using te'(3) tr'(3) td'(3) by (simp_all add: mapIndex_def)
  ultimately have "caseClauses (runLoop op typeDefinitions')
      = map (mapIndex ?h) A @ [snd (buildUnmarshalCase te' (unmarshalAction decoder te') decoder)]
        @ map (mapIndex ?h) B @ [snd (buildUnmarshalCase tr' (unmarshalAction decoder tr') decoder)]
        @ map (mapIndex ?h) C @ [snd (buildUnmarshalCase td' (unmarshalAction decoder td') decoder)]
        @ (map (mapIndex ?h) D @ ?U)"
    by simp
  with te'(1,2) tr'(1,2) td'(1,2) show ?thesis by blast
qed

theorem handled_precedence_witness:
  "(\<exists>A B C D te' tr' td'.
      caseClauses (runLoop
          (operationOf [(''200'', responseOf [''application/json'']),
                        (''2XX'', responseOf [''application/json'']),
                        (''default'', responseOf [''application/json''])])
          [typeDefinitionOf ''default'' ''application/json'' ''JSONDefault'',
           typeDefinitionOf ''2XX'' ''application/json'' ''JSON2XX'',
           typeDefinitionOf ''200'' ''application/json'' ''JSON200''])
        = A @ [snd (buildUnmarshalCase te' (unmarshalAction ''json'' te') ''json'')]
          @ B @ [snd (buildUnmarshalCase tr' (unmarshalAction ''json'' tr') ''json'')]
          @ C @ [snd (buildUnmarshalCase td' (unmarshalAction ''json'' td') ''json'')] @ D
      \<and> ResponseName te' = ''200'' \<and> ResponseName tr' = ''2XX'' \<and> ResponseName td' = ''default'')
   \<and> caseClauses (runLoop
          (operationOf [(''200'', responseOf [''application/json'']),
                        (''2XX'', responseOf [''application/json'']),
                        (''default'', responseOf [''application/json''])])
          [typeDefinitionOf ''default'' ''application/json'' ''JSONDefault'',
           typeDefinitionOf ''2XX'' ''application/json'' ''JSON2XX'',
           typeDefinitionOf ''200'' ''application/json'' ''JSON200''])
      = map (\<lambda>t. snd (buildUnmarshalCase t (unmarshalAction ''json'' t) ''json''))
          [typeDefinitionOf ''200'' ''application/json'' ''JSON200'',
           typeDefinitionOf ''2XX'' ''application/json'' ''JSON2XX'',
           typeDefinitionOf ''default'' ''application/json'' ''JSONDefault'']"
proof -
  let ?op = "operationOf [(''200'', responseOf [''application/json'']),
                        (''2XX'', responseOf [''application/json'']),
                        (''default'', responseOf [''application/json''])]"
  let ?te = "typeDefinitionOf ''200'' ''application/json'' ''JSON200''"
  let ?tr = "typeDefinitionOf ''2XX'' ''application/json'' ''JSON2XX''"
  let ?td = "typeDefinitionOf ''default'' ''application/json'' ''JSONDefault''"
  have p: "mset [?td, ?tr, ?te] = mset [?te, ?tr, ?td]"
    by (simp add: add_mset_commute)
  have h: "\<forall>t \<in> {?te, ?tr, ?td}. handledCaseClauses (typeDefinitionStep ?op t initialState)
           = [buildUnmarshalCase t (unmarshalAction ''json'' t) ''json'']"
    by code_simp
  have n: "ResponseName ?te = [CHR ''2'', CHR ''0'', CHR ''0'']"
    "ResponseName ?tr = [CHR ''2'', CHR ''X'', CHR ''X'']" "ResponseName ?td = ''default''"
    by (simp_all add: typeDefinitionOf_def)
  have "\<exists>A B C D te' tr' td'.
      caseClauses (runLoop ?op [?td, ?tr, ?te])
        = A @ [snd (buildUnmarshalCase te' (unmarshalAction ''json'' te') ''json'')]
          @ B @ [snd (buildUnmarshalCase tr' (unmarshalAction ''json'' tr') ''json'')]
          @ C @ [snd (buildUnmarshalCase td' (unmarshalAction ''json'' td') ''json'')] @ D
      \<and> ResponseName te' = ''200'' \<and> ResponseName tr' = ''2XX'' \<and> ResponseName td' = ''default''"
    using handled_precedence [OF p _ h _ _ _ n] by simp blast
  moreover have "caseClauses (runLoop ?op [?td, ?tr, ?te])
      = map (\<lambda>t. snd (buildUnmarshalCase t (unmarshalAction ''json'' t) ''json'')) [?te, ?tr, ?td]"
    by code_simp
  ultimately show ?thesis by blast
qed

subsection \<open>Independence of the enumeration order of maps\<close>

lemma SortedContentKeys_cong:
  "set c = set c' \<Longrightarrow> SortedContentKeys c = SortedContentKeys c'"
  unfolding SortedContentKeys_def
  by (metis sorted_list_of_set_sort_remdups)

lemma typeDefinitionStep_sameMaps:
  assumes "sameMaps op op'"
  shows "typeDefinitionStep op td st = typeDefinitionStep op' td st"
proof -
  from assms have id: "OperationId op = OperationId op'"
    and rel: "rel_option
           (\<lambda>responseRef responseRef'. rel_option
              (\<lambda>response response'. set (Content response) = set (Content response'))
              (Value responseRef) (Value responseRef'))
           (Responses (Spec op) (ResponseName td)) (Responses (Spec op') (ResponseName td))"
    by (simp_all add: sameMaps_def)
  show ?thesis
  proof (cases "Responses (Spec op) (ResponseName td)")
    case None
    with rel have "Responses (Spec op') (ResponseName td) = None" by simp
    with None show ?thesis by (simp add: typeDefinitionStep_def)
  next
    case (Some r)
    with rel obtain r' where r': "Responses (Spec op') (ResponseName td) = Some r'"
      and v: "rel_option (\<lambda>response response'. set (Content response) = set (Content response'))
              (Value r) (Value r')"
      by (auto simp: option_rel_Some1)
    show ?thesis
    proof (cases "Value r")
      case None
      with v have "Value r' = None" by simp
      with None Some r' id show ?thesis by (simp add: typeDefinitionStep_def)
    next
      case (Some x)
      with v obtain x' where x': "Value r' = Some x'" and c: "set (Content x) = set (Content x')"
        by (auto simp: option_rel_Some1)
      from c have e: "Content x = [] \<longleftrightarrow> Content x' = []" by (metis set_empty)
      from c have "SortedContentKeys (Content x) = SortedContentKeys (Content x')"
        by (rule SortedContentKeys_cong)
      with e Some x' r' \<open>Responses (Spec op) (ResponseName td) = Some r\<close> show ?thesis
        by (simp add: typeDefinitionStep_def)
    qed
  qed
qed

lemma runLoop_sameMaps:
  assumes "sameMaps op op'"
  shows "runLoop op = runLoop op'"
proof -
  have "typeDefinitionStep op = typeDefinitionStep op'"
    by (intro ext) (rule typeDefinitionStep_sameMaps [OF assms])
  then show ?thesis by (intro ext) (simp only: runLoop_def)
qed

lemma SortedStringKeys_sameEntries:
  assumes "sameEntries m m'"
  shows "SortedStringKeys m = SortedStringKeys m'"
proof -
  from assms have d: "distinct (map fst m)" "distinct (map fst m')"
    and eq: "map_of m = map_of m'" by (simp_all add: sameEntries_def)
  have "set (map fst m) = dom (map_of m)" by (simp add: dom_map_of_conv_image_fst)
  also have "\<dots> = dom (map_of m')" by (simp add: eq)
  also have "\<dots> = set (map fst m')" by (simp add: dom_map_of_conv_image_fst)
  finally have s: "set (map fst m) = set (map fst m')" .
  have "sort (map fst m) = sorted_list_of_set (set (map fst m))"
    using d(1) by (metis distinct_remdups_id sorted_list_of_set_sort_remdups)
  also have "\<dots> = sorted_list_of_set (set (map fst m'))" by (simp only: s)
  also have "\<dots> = sort (map fst m')"
    using d(2) by (metis distinct_remdups_id sorted_list_of_set_sort_remdups)
  finally show ?thesis by (simp add: SortedStringKeys_def)
qed

lemma mapIndex_sameEntries:
  "sameEntries m m' \<Longrightarrow> mapIndex m = mapIndex m'"
  by (auto simp: sameEntries_def mapIndex_def)

text \<open>
  C8. The result of \<open>genResponseUnmarshal\<close> is a function of the operation
  definition as a value: it does not depend on the order in which the \<open>Content\<close> map
  of a response enumerates its content types, since the loop visits them in sorted
  order, and the clauses it prints do not depend on the order in which the two clause
  maps hold their entries, since they are printed in the order of the sorted keys. Two
  invocations on the same value give the same bytes.
\<close>

theorem genResponseUnmarshal_deterministic:
  "(sameMaps op op' \<and> GetResponseTypeDefinitions op = GetResponseTypeDefinitions op' \<longrightarrow>
      genResponseUnmarshal GetResponseTypeDefinitions op
        = genResponseUnmarshal GetResponseTypeDefinitions op')
   \<and> (sameEntries (handledCaseClauses st) (handledCaseClauses st')
        \<and> sameEntries (unhandledCaseClauses st) (unhandledCaseClauses st') \<longrightarrow>
      caseClauses st = caseClauses st')"
proof -
  have "genResponseUnmarshal GetResponseTypeDefinitions op
        = genResponseUnmarshal GetResponseTypeDefinitions op'"
    if "sameMaps op op'" "GetResponseTypeDefinitions op = GetResponseTypeDefinitions op'"
    unfolding genResponseUnmarshal_def that(2) runLoop_sameMaps [OF that(1)]
    by (rule refl)
  moreover have "caseClauses st = caseClauses st'"
    if "sameEntries (handledCaseClauses st) (handledCaseClauses st')"
      "sameEntries (unhandledCaseClauses st) (unhandledCaseClauses st')"
    using that
    by (simp add: caseClauses_def SortedStringKeys_sameEntries mapIndex_sameEntries)
  ultimately show ?thesis by blast
qed

theorem genResponseUnmarshal_deterministic_witness:
  "genResponseUnmarshal (\<lambda>_. Inr [typeDefinitionOf ''200'' ''application/json'' ''JSON200''])
      (operationOf [(''200'', responseOf [''application/octet-stream'', ''application/json'', ''text/plain''])])
   = genResponseUnmarshal (\<lambda>_. Inr [typeDefinitionOf ''200'' ''application/json'' ''JSON200''])
      (operationOf [(''200'', responseOf [''text/plain'', ''application/json'', ''application/octet-stream''])])
   \<and> caseClauses \<lparr>handledCaseClauses = [(''9.json.200'', ''a''), (''9.json.404'', ''b'')],
                  unhandledCaseClauses = [], stderr = []\<rparr>
     = caseClauses \<lparr>handledCaseClauses = [(''9.json.404'', ''b''), (''9.json.200'', ''a'')],
                  unhandledCaseClauses = [], stderr = []\<rparr>"
proof -
  let ?op = "operationOf [(''200'', responseOf [''application/octet-stream'', ''application/json'', ''text/plain''])]"
  let ?op' = "operationOf [(''200'', responseOf [''text/plain'', ''application/json'', ''application/octet-stream''])]"
  let ?G = "\<lambda>_ :: OperationDefinition. (Inr [typeDefinitionOf ''200'' ''application/json'' ''JSON200'']
      :: error + ResponseTypeDefinition list)"
  let ?st = "\<lparr>handledCaseClauses = [(''9.json.200'', ''a''), (''9.json.404'', ''b'')],
                  unhandledCaseClauses = [], stderr = []\<rparr>"
  let ?st' = "\<lparr>handledCaseClauses = [(''9.json.404'', ''b''), (''9.json.200'', ''a'')],
                  unhandledCaseClauses = [], stderr = []\<rparr>"
  have s: "sameMaps ?op ?op'"
    by (auto simp: sameMaps_def operationOf_def responseOf_def)
  have e: "sameEntries (handledCaseClauses ?st) (handledCaseClauses ?st')"
    "sameEntries (unhandledCaseClauses ?st) (unhandledCaseClauses ?st')"
    by (auto simp: sameEntries_def)
  from genResponseUnmarshal_deterministic [of ?op ?op' ?G ?st ?st'] s e
  show ?thesis by simp
qed

end
